theory Spec2Isabelle
  imports Complex_Main "HOL-Library.Log_Nat" "HOL-Library.Word"
begin

section \<open>Machine numbers\<close>

text \<open>
  The identifier types of the miniapp (\<open>id_type\<close>, \<open>index_type\<close>, both
  \<open>mc::cell_gid_type\<close>) and the \<open>uint32_t\<close> of the source distribution are unsigned
  32-bit integers; C++ \<open>int\<close> is read as the same 32 bits, signed (\<open>sint\<close>, \<open><s\<close>).
\<close>

type_synonym u32 = "32 word"

text \<open>
  Times are C++ \<open>double\<close>, delays and weights \<open>float\<close>.  A finite floating-point value
  is represented by the rational number it denotes.  \<open>fp_round p\<close> rounds a rational to
  the nearest value with a \<open>p\<close>-bit significand, ties to the even significand (the
  default rounding of binary32, \<open>p = 24\<close>, and binary64, \<open>p = 53\<close>).  The exponent range
  is not bounded: infinities, NaN and overflow are outside the model; a sum of two
  floating-point values that falls into the subnormal range is exact, so nothing is lost
  below.
\<close>

definition rne :: "rat \<Rightarrow> int" where
  "rne x = (let f = \<lfloor>x\<rfloor>; r = x - of_int f in
     if r < 1/2 then f else if 1/2 < r then f + 1 else if even f then f else f + 1)"

definition fp_exponent :: "nat \<Rightarrow> rat \<Rightarrow> int" where
  "fp_exponent p x = (case quotient_of \<bar>x\<bar> of (n, d) \<Rightarrow>
     let g = bitlen n - bitlen d in
     (if 2 powi g \<le> \<bar>x\<bar> then g else g - 1) - (int p - 1))"

definition fp_round :: "nat \<Rightarrow> rat \<Rightarrow> rat" where
  "fp_round p x = (if x = 0 then 0 else
     let e = fp_exponent p x in of_int (rne (x / 2 powi e)) * 2 powi e)"

text \<open>\<open>x + y\<close> on two \<open>double\<close>s, and on two \<open>float\<close>s.\<close>

definition dadd :: "rat \<Rightarrow> rat \<Rightarrow> rat" where
  "dadd x y = fp_round 53 (x + y)"

definition fadd :: "rat \<Rightarrow> rat \<Rightarrow> rat" where
  "fadd x y = fp_round 24 (x + y)"


section \<open>The simulation driver: \<open>model::run\<close> (miniapp.cpp)\<close>







text \<open>
  The \<open>while (t<tfinal)\<close> loop.  The log gets one entry per pass: the value of \<open>t\<close> at
  the start of the pass and the time the groups are advanced to.  The loop need not
  terminate, so the result is an option: \<open>None\<close> is a loop that runs forever.
\<close>

partial_function (option) stepping ::
  "rat \<Rightarrow> rat \<Rightarrow> rat \<Rightarrow> (rat \<times> rat) list \<Rightarrow> (rat \<times> (rat \<times> rat) list) option" where
  "stepping t delta tfinal passes =
     (if t < tfinal
      then stepping (dadd t delta) delta tfinal (passes @ [(t, min (dadd t delta) tfinal)])
      else Some (t, passes))"

text \<open>
  \<open>run\<close> with \<open>min_delay\<close> the value of \<open>double(communicator.min_delay())\<close>: the final
  value of \<open>t\<close> and the log of the passes.
\<close>

definition run :: "rat \<Rightarrow> rat \<Rightarrow> (rat \<times> (rat \<times> rat) list) option" where
  "run min_delay tfinal = stepping 0 (min min_delay tfinal) tfinal []"

text \<open>The length of each logged epoch: how far the groups are advanced in that pass.\<close>

definition epoch_lengths :: "(rat \<times> rat) list \<Rightarrow> rat list" where
  "epoch_lengths passes = map (\<lambda>(t, t_end). t_end - t) passes"


section \<open>The index mapper: \<open>make_index\<close>\<close>

text \<open>
  Modelled from the spec: \<open>mc::algorithms::make_index\<close> (algorithms.hpp is not part of
  the sources; \<open>model::init_communicator\<close> only calls it).  The spec: given a sequence of
  per-unit counts, produce the sequence of prefix-sum offsets of length \<open>count+1\<close>, where
  entry \<open>k\<close> is the sum of all counts before unit \<open>k\<close> and the final entry is the total.
  The element type is any type with an addition, so the definition covers natural
  numbers as well as the wrapping 32-bit \<open>id_type\<close>.
\<close>

definition make_index :: "'a::monoid_add list \<Rightarrow> 'a list" where
  "make_index counts = map (\<lambda>k. sum_list (take k counts)) [0..<length counts + 1]"


section \<open>The communicator\<close>

text \<open>
  The communicator is declared in communication/communicator.hpp, which is not part of
  the sources; miniapp.cpp only calls it.  Its operations below are modelled from the
  spec's sections 3, 4.2, 6 and 7.
\<close>

text \<open>Modelled from the spec: the error kinds of section 7.\<close>

datatype error = AddressingError | ConnectivityError | IntegratorError | UsageError

text \<open>
  A connection, with the four fields of the initializer list in \<open>all_to_all_model\<close>
  (source, target, weight, delay).
\<close>

record connection =
  source :: u32
  destination :: u32
  weight :: rat
  delay :: rat

text \<open>
  Modelled from the spec: the state of the communicator of one domain.  It holds the
  connections added so far, whether \<open>construct()\<close> has been called, the minimum delay
  computed by \<open>construct()\<close>, the global id of the domain's first cell group with the
  number of its groups (global cell ids are dense in domain order), and the numbers of
  cell groups and of synapse targets of the whole network: GlobalCellIds and TargetIds
  are dense, so these two numbers are the ranges of valid source and target references.
\<close>

record communicator =
  connections :: "connection list"
  constructed :: bool
  global_min_delay :: "rat option"
  gid_first :: u32
  num_local_groups :: u32
  num_global_groups :: u32
  num_global_targets :: u32

text \<open>
  Modelled from the spec: \<open>add_connection\<close> appends a candidate connection before
  \<open>construct()\<close> is called; calling it after \<open>construct()\<close> is a UsageError.
\<close>

definition add_connection :: "communicator \<Rightarrow> connection \<Rightarrow> error + communicator" where
  "add_connection c con =
     (if constructed c then Inl UsageError
      else Inr (c\<lparr>connections := connections c @ [con]\<rparr>))"

text \<open>
  Modelled from the spec: the minimum delay of one domain's own connections, the value
  the domain contributes to the reduction; \<open>None\<close> when it has no connection.
\<close>

definition local_min_delay :: "connection list \<Rightarrow> rat option" where
  "local_min_delay cons =
     (case cons of [] \<Rightarrow> None
      | con # rest \<Rightarrow> Some (fold (\<lambda>c m. min (delay c) m) rest (delay con)))"

text \<open>Modelled from the spec: the minimum of two contributions.\<close>

fun opt_min :: "rat option \<Rightarrow> rat option \<Rightarrow> rat option" where
  "opt_min None y = y"
| "opt_min x None = x"
| "opt_min (Some a) (Some b) = Some (min a b)"

text \<open>
  Modelled from the spec: the collective \<open>min\<close> of the global policy (section 6): every
  domain contributes its local value and every domain receives the minimum of all
  contributions.
\<close>

definition policy_min :: "rat option list \<Rightarrow> rat option" where
  "policy_min contributions = fold opt_min contributions None"

text \<open>
  Modelled from the spec: a connection that \<open>construct()\<close> rejects (section 7): its delay
  is negative, or its source is not the id of a cell group of the network, or its target
  is not the id of a synapse target of the network.
\<close>

definition bad_connection :: "communicator \<Rightarrow> connection \<Rightarrow> bool" where
  "bad_connection c con \<longleftrightarrow>
     delay con < 0
     \<or> num_global_groups c \<le> source con
     \<or> num_global_targets c \<le> destination con"

text \<open>
  Modelled from the spec: \<open>construct()\<close> on one domain, given the contributions of all
  domains to the reduction.  Calling it twice is a UsageError (sections 4.2 and 7).  A
  negative delay or an out-of-range source or target reference is rejected with a
  ConnectivityError (section 7).  The minimum delay of the network, computed by the
  collective reduction, has to be positive (sections 3 and 4.5: \<open>min_delay > 0\<close> is
  enforced at construction); the spec names no error kind for a minimum that is not, and
  the model reports it as a ConnectivityError as well.  A network without any
  connection has no minimum delay and nothing to reject.  Otherwise \<open>construct()\<close>
  sorts the connections by source and stores the minimum delay.
\<close>

definition construct :: "rat option list \<Rightarrow> communicator \<Rightarrow> error + communicator" where
  "construct contributions c =
     (if constructed c then Inl UsageError
      else if \<exists>con \<in> set (connections c). bad_connection c con then Inl ConnectivityError
      else if (case policy_min contributions of None \<Rightarrow> False | Some m \<Rightarrow> m \<le> 0)
        then Inl ConnectivityError
      else Inr (c\<lparr>connections := sort_key source (connections c),
                  constructed := True,
                  global_min_delay := policy_min contributions\<rparr>))"

text \<open>
  Modelled from the spec: \<open>construct()\<close> as the collective step it is, all domains
  calling it together; the result of each domain, in domain order.
\<close>

definition construct_all :: "communicator list \<Rightarrow> (error + communicator) list" where
  "construct_all domains =
     map (construct (map (\<lambda>c. local_min_delay (connections c)) domains)) domains"

text \<open>Modelled from the spec: \<open>min_delay()\<close> returns the minimum stored by \<open>construct()\<close>.\<close>

definition min_delay :: "communicator \<Rightarrow> rat option" where
  "min_delay c = global_min_delay c"

text \<open>
  Modelled from the spec: the addressing of cell groups.  Global cell ids are assigned
  densely in domain order, so the global id of the local group \<open>lid\<close> is the domain's
  first global id plus \<open>lid\<close>; \<open>group_lid\<close> is the way back, and a group is local when
  its global id lies in the domain's range.
\<close>

definition group_gid_from_group_lid :: "communicator \<Rightarrow> u32 \<Rightarrow> u32" where
  "group_gid_from_group_lid c lid = gid_first c + lid"

definition is_local_group :: "communicator \<Rightarrow> u32 \<Rightarrow> bool" where
  "is_local_group c gid =
     (unat (gid_first c) \<le> unat gid \<and>
      unat gid < unat (gid_first c) + unat (num_local_groups c))"

definition group_lid :: "communicator \<Rightarrow> u32 \<Rightarrow> u32" where
  "group_lid c gid = gid - gid_first c"

text \<open>
  For examples: domain \<open>k\<close> of a network in which every domain has two cell groups with
  one synapse target each, six groups and six targets in all, not yet constructed.  It
  has one connection per given delay, from the second cell group of the domain to the
  target of the first.
\<close>

definition example_connection :: "u32 \<Rightarrow> rat \<Rightarrow> connection" where
  "example_connection k d = \<lparr>source = 2 * k + 1, destination = 2 * k, weight = 1, delay = d\<rparr>"

definition example_domain :: "u32 \<Rightarrow> rat list \<Rightarrow> communicator" where
  "example_domain k delays =
     \<lparr>connections = map (example_connection k) delays, constructed = False,
      global_min_delay = None, gid_first = 2 * k, num_local_groups = 2,
      num_global_groups = 6, num_global_targets = 6\<rparr>"


section \<open>\<open>cable_cell::add_cable\<close> (cable_cell.cpp)\<close>

text \<open>
  The segment classes are declared in segment.hpp, which is not part of the sources;
  the three kinds of segment the code distinguishes are a tagged union, with the
  payload of a soma and of a cable left as type parameters.  \<open>as_cable\<close> is the
  downcast, null for a segment that is not a cable.  \<open>index_type\<close> and \<open>size_type\<close> are
  unsigned integers of some width \<open>'w\<close> (the record leaves the index type open, the
  functions fix it to \<open>'w word\<close>).
\<close>

datatype ('s, 'c) segment =
    placeholder_segment
  | soma_segment 's
  | cable_segment 'c

fun as_cable :: "('s, 'c) segment \<Rightarrow> 'c option" where
  "as_cable (cable_segment c) = Some c"
| "as_cable placeholder_segment = None"
| "as_cable (soma_segment s) = None"

datatype cable_cell_error = cable_cell_error string

record ('s, 'c, 'i) cable_cell =
  segments :: "('s, 'c) segment list"
  parents :: "'i list"

text \<open>The constructor inserts a placeholder for the soma, with parent 0.\<close>

definition new_cable_cell :: "('s, 'c, 'w::len word) cable_cell" where
  "new_cable_cell = \<lparr>segments = [placeholder_segment], parents = [0]\<rparr>"

definition num_segments :: "('s, 'c, 'w::len word) cable_cell \<Rightarrow> 'w word" where
  "num_segments cell = of_nat (length (segments cell))"

text \<open>
  \<open>add_cable(parent, cable)\<close>: either the exception, or the cell after the call
  together with the cable the returned pointer refers to.
\<close>

definition add_cable ::
  "('s, 'c, 'w::len word) cable_cell \<Rightarrow> 'w word \<Rightarrow> ('s, 'c) segment
     \<Rightarrow> cable_cell_error + (('s, 'c, 'w word) cable_cell \<times> 'c)" where
  "add_cable cell parent cable =
     (case as_cable cable of
        None \<Rightarrow> Inl (cable_cell_error ''segment is not a cable segment'')
      | Some cab \<Rightarrow>
          if parent > num_segments cell
          then Inl (cable_cell_error ''parent index out of range'')
          else Inr (cell\<lparr>segments := segments cell @ [cable],
                         parents := parents cell @ [parent]\<rparr>, cab))"


section \<open>\<open>all_to_all_model\<close> (miniapp.cpp)\<close>

subsection \<open>Domain decomposition\<close>

text \<open>
  The number of cells of one domain.  \<open>num_domains\<close> and \<open>domain_id\<close> are the \<open>int\<close>s
  returned by the global policy; in \<open>ncell_global / num_domains\<close> and in the product
  they are converted to the unsigned type, \<open>remainder\<close> is an \<open>int\<close>, and
  \<open>domain_id<remainder\<close> compares two \<open>int\<close>s.
\<close>

definition ncell_local_of :: "u32 \<Rightarrow> u32 \<Rightarrow> u32 \<Rightarrow> u32" where
  "ncell_local_of ncell_global num_domains domain_id =
     (let ncell_local = ncell_global div num_domains;
          remainder = ncell_global - ncell_local * num_domains
      in if domain_id <s remainder then ncell_local + 1 else ncell_local)"

subsection \<open>Building the connections\<close>

text \<open>
  The random number generator is a state \<open>'g\<close>; \<open>source_distribution\<close> and
  \<open>weight_distribution\<close> draw a value and return the next state.  They are parameters:
  \<open>std::mt19937\<close> and the two distributions are library code.
  The base synapse delay \<open>parameters::synapses::delay\<close> is 20.
\<close>

definition synapse_delay :: rat where
  "synapse_delay = 20"

text \<open>
  The \<open>while (cells_added < synapses_per_cell)\<close> loop for one cell; \<open>conns\<close> collects
  the connections handed to \<open>add_connection\<close>, in order.  \<open>None\<close> is a loop that runs
  forever.
\<close>

partial_function (option) add_synapses ::
  "bool \<Rightarrow> ('g \<Rightarrow> u32 \<times> 'g) \<Rightarrow> ('g \<Rightarrow> rat \<times> 'g) \<Rightarrow> u32 \<Rightarrow> rat \<Rightarrow> u32
     \<Rightarrow> 'g \<Rightarrow> u32 \<Rightarrow> u32 \<Rightarrow> u32 \<Rightarrow> connection list \<Rightarrow> connection list option" where
  "add_synapses is_all_to_all source_distribution weight_distribution
       synapses_per_cell wgt gid gen i cells_added target conns =
     (if cells_added < synapses_per_cell then
        (let sg = (if is_all_to_all then (i, gen) else source_distribution gen) in
         if gid \<noteq> fst sg then
           (let wg = weight_distribution (snd sg) in
            add_synapses is_all_to_all source_distribution weight_distribution
              synapses_per_cell wgt gid (snd wg) (i + 1) (cells_added + 1) (target + 1)
              (conns @ [\<lparr>source = fst sg, destination = target, weight = wgt,
                         delay = fadd synapse_delay (fst wg)\<rparr>]))
         else
           add_synapses is_all_to_all source_distribution weight_distribution
             synapses_per_cell wgt gid (snd sg) (i + 1) cells_added target conns)
      else Some conns)"

text \<open>
  The body of the \<open>for\<close> loop for the cell with local index \<open>lid\<close>: its first target
  id and its global id come from the communicator (\<open>target_gid_from_group_lid\<close> is a
  parameter), the generator is seeded with the global id (\<open>seed\<close> is \<open>std::mt19937(gid)\<close>).
\<close>

definition cell_connections ::
  "bool \<Rightarrow> (u32 \<Rightarrow> 'g) \<Rightarrow> ('g \<Rightarrow> u32 \<times> 'g) \<Rightarrow> ('g \<Rightarrow> rat \<times> 'g) \<Rightarrow> u32 \<Rightarrow> rat
     \<Rightarrow> (u32 \<Rightarrow> u32) \<Rightarrow> communicator \<Rightarrow> u32 \<Rightarrow> connection list option" where
  "cell_connections is_all_to_all seed source_distribution weight_distribution
       synapses_per_cell wgt target_gid_from_group_lid c lid =
     (let target = target_gid_from_group_lid lid;
          gid = group_gid_from_group_lid c lid;
          gen = seed gid
      in add_synapses is_all_to_all source_distribution weight_distribution
           synapses_per_cell wgt gid gen 0 0 target [])"


text \<open>
  What the connections \<open>new\<close> added for one cell have to satisfy: there are \<open>n\<close> of
  them, none has the cell's own gid as its source, each has at least the base delay
  and the given weight, and their targets are consecutive from \<open>target\<close> on.
\<close>

definition added_ok :: "u32 \<Rightarrow> rat \<Rightarrow> u32 \<Rightarrow> nat \<Rightarrow> connection list \<Rightarrow> bool" where
  "added_ok gid wgt target n new \<longleftrightarrow>
     length new = n
     \<and> (\<forall>con \<in> set new. source con \<noteq> gid \<and> synapse_delay \<le> delay con \<and> weight con = wgt)
     \<and> map destination new = map (\<lambda>k. target + of_nat k) [0..<n]"

text \<open>
  For examples: the communicator of the only domain of a network of one cell, and of a
  network of two cells with two synapse targets each.
\<close>

definition one_cell_domain :: communicator where
  "one_cell_domain = \<lparr>connections = [], constructed = False, global_min_delay = None,
     gid_first = 0, num_local_groups = 1, num_global_groups = 1, num_global_targets = 1\<rparr>"

definition two_cell_domain :: communicator where
  "two_cell_domain = \<lparr>connections = [], constructed = False, global_min_delay = None,
     gid_first = 0, num_local_groups = 2, num_global_groups = 2, num_global_targets = 4\<rparr>"


section \<open>Properties of the floating-point addition\<close>

lemma rne_of_int: "rne (of_int n) = n"
  by (simp add: rne_def)

lemma rne_ge: "of_int n \<le> x \<Longrightarrow> n \<le> rne x"
proof -
  assume "of_int n \<le> x"
  then have "n \<le> \<lfloor>x\<rfloor>" by (simp add: le_floor_iff)
  moreover have "\<lfloor>x\<rfloor> \<le> rne x" by (simp add: rne_def Let_def)
  ultimately show ?thesis by linarith
qed

lemma two_powi_diff_nat: "(2::rat) powi (int u - int v) = 2 ^ u / 2 ^ v"
proof -
  have "(2::rat) powi (int u - int v) = 2 powi int u / 2 powi int v"
    by (rule power_int_diff) simp
  then show ?thesis by (simp only: power_int_of_nat)
qed

lemma quotient_bitlen_bounds:
  fixes n d :: int
  assumes n: "0 < n" and d: "0 < d"
  shows "2 powi (bitlen n - bitlen d - 1) \<le> (of_int n / of_int d :: rat)"
    and "(of_int n / of_int d :: rat) < 2 powi (bitlen n - bitlen d + 1)"
proof -
  define a where "a = nat (bitlen n - 1)"
  define b where "b = nat (bitlen d - 1)"
  have bn: "bitlen n = int a + 1" and bd: "bitlen d = int b + 1"
    using n d bitlen_eq_zero_iff[of n] bitlen_eq_zero_iff[of d] bitlen_nonneg[of n] bitlen_nonneg[of d]
    by (auto simp: a_def b_def)
  have nb: "2 ^ a \<le> n" "n < 2 ^ (a + 1)"
    using bitlen_bounds[OF n] unfolding bn by (simp_all add: nat_add_distrib)
  have db: "2 ^ b \<le> d" "d < 2 ^ (b + 1)"
    using bitlen_bounds[OF d] unfolding bd by (simp_all add: nat_add_distrib)
  have nr: "(2::rat) ^ a \<le> of_int n" "(of_int n :: rat) < 2 ^ (a + 1)"
    using nb by (metis of_int_le_iff of_int_numeral of_int_power, metis of_int_less_iff of_int_numeral of_int_power)
  have dr: "(2::rat) ^ b \<le> of_int d" "(of_int d :: rat) < 2 ^ (b + 1)"
    using db by (metis of_int_le_iff of_int_numeral of_int_power, metis of_int_less_iff of_int_numeral of_int_power)
  have e1: "bitlen n - bitlen d - 1 = int a - int (b + 1)" by (simp add: bn bd)
  have e2: "bitlen n - bitlen d + 1 = int (a + 1) - int b" by (simp add: bn bd)
  have "(2::rat) ^ a / 2 ^ (b + 1) \<le> of_int n / of_int d"
    using nr dr n d by (intro frac_le) auto
  then show "2 powi (bitlen n - bitlen d - 1) \<le> (of_int n / of_int d :: rat)"
    unfolding e1 two_powi_diff_nat .
  have "(of_int n :: rat) / of_int d < 2 ^ (a + 1) / 2 ^ b"
    using nr dr n d by (intro frac_less) auto
  then show "(of_int n / of_int d :: rat) < 2 powi (bitlen n - bitlen d + 1)"
    unfolding e2 two_powi_diff_nat .
qed

lemma fp_exponent_bounds:
  assumes "x \<noteq> 0"
  shows "2 powi (fp_exponent p x + int p - 1) \<le> \<bar>x\<bar>"
    and "\<bar>x\<bar> < 2 powi (fp_exponent p x + int p)"
proof -
  obtain n d where q: "quotient_of \<bar>x\<bar> = (n, d)" by (cases "quotient_of \<bar>x\<bar>")
  have d: "0 < d" using quotient_of_denom_pos[OF q] .
  have x: "\<bar>x\<bar> = of_int n / of_int d" using quotient_of_div[OF q] .
  have n: "0 < n"
  proof -
    have "0 < \<bar>x\<bar>" using assms by simp
    then show ?thesis using d unfolding x by (simp add: zero_less_divide_iff)
  qed
  note b = quotient_bitlen_bounds[OF n d, folded x]
  show "2 powi (fp_exponent p x + int p - 1) \<le> \<bar>x\<bar>"
    using b(1) by (simp add: fp_exponent_def q Let_def)
  show "\<bar>x\<bar> < 2 powi (fp_exponent p x + int p)"
    using b(2) by (auto simp add: fp_exponent_def q Let_def not_le)
qed

lemma two_powi_less_imp: "(2::rat) powi a < 2 powi b \<Longrightarrow> a < b"
  using power_int_increasing[of b a "2::rat"] by force

lemma fp_round_representable:
  assumes m: "\<bar>m\<bar> < 2 ^ p" 
  shows "fp_round p (of_int m * 2 powi k) = of_int m * 2 powi k"
proof (cases "m = 0")
  case True then show ?thesis by (simp add: fp_round_def)
next
  case False
  let ?x = "of_int m * 2 powi k :: rat"
  let ?e = "fp_exponent p ?x"
  have x0: "?x \<noteq> 0" using False by simp
  have "\<bar>?x\<bar> < 2 ^ p * 2 powi k"
  proof -
    have "(of_int \<bar>m\<bar> :: rat) < 2 ^ p" using m by (metis of_int_less_iff of_int_numeral of_int_power)
    then show ?thesis by (simp add: abs_mult)
  qed
  then have "\<bar>?x\<bar> < 2 powi (int p + k)" by (simp add: power_int_add)
  with fp_exponent_bounds(1)[OF x0, of p] have "(2::rat) powi (?e + int p - 1) < 2 powi (int p + k)"
    by linarith
  then have "?e + int p - 1 < int p + k" by (rule two_powi_less_imp)
  then have ek: "?e \<le> k" by simp
  have "?x / 2 powi ?e = of_int m * 2 powi (k - ?e)"
    by (simp add: power_int_diff)
  also have "\<dots> = of_int (m * 2 ^ nat (k - ?e))"
    using ek by (simp add: power_int_def)
  finally have "rne (?x / 2 powi ?e) = m * 2 ^ nat (k - ?e)" by (simp only: rne_of_int)
  then have "fp_round p ?x = of_int (m * 2 ^ nat (k - ?e)) * 2 powi ?e"
    using x0 by (simp add: fp_round_def Let_def)
  also have "\<dots> = of_int m * (2 powi (k - ?e) * 2 powi ?e)"
    using ek by (simp add: power_int_def)
  also have "\<dots> = ?x" by (simp add: power_int_diff)
  finally show ?thesis .
qed

lemma fp_round_of_nat:
  assumes "n \<le> 2 ^ p" and "0 < p"
  shows "fp_round p (of_nat n) = of_nat n"
proof (cases "n = 2 ^ p")
  case True
  have "fp_round p (of_int 1 * 2 powi int p) = of_int 1 * 2 powi int p"
    using assms(2) by (intro fp_round_representable) simp
  then show ?thesis using True by simp
next
  case False
  then have "int n < 2 ^ p" using assms(1)
    by (metis le_neq_implies_less of_nat_less_iff of_nat_numeral of_nat_power)
  then show ?thesis using fp_round_representable[of "int n" p 0] by simp
qed

lemma fp_round_lower:
  assumes m: "0 < m" "m < 2 ^ p" and le: "of_int m * 2 powi k \<le> x"
  shows "of_int m * 2 powi k \<le> fp_round p x"
proof -
  let ?r = "of_int m * 2 powi k :: rat"
  let ?e = "fp_exponent p x"
  have r0: "0 < ?r" using m(1) by simp
  then have x0: "0 < x" using le by linarith
  then have xn: "x \<noteq> 0" by simp
  have fr: "fp_round p x = of_int (rne (x / 2 powi ?e)) * 2 powi ?e"
    using xn by (simp add: fp_round_def Let_def)
  show ?thesis
  proof (cases "?e \<le> k")
    case True
    have "?r / 2 powi ?e = of_int m * 2 powi (k - ?e)"
      by (simp add: power_int_diff)
    also have "\<dots> = of_int (m * 2 ^ nat (k - ?e))"
      using True by (simp add: power_int_def)
    finally have eq: "?r / 2 powi ?e = of_int (m * 2 ^ nat (k - ?e))" .
    have "?r / 2 powi ?e \<le> x / 2 powi ?e"
      using le by (simp add: divide_right_mono)
    then have "m * 2 ^ nat (k - ?e) \<le> rne (x / 2 powi ?e)"
      unfolding eq by (rule rne_ge)
    then have "(of_int (m * 2 ^ nat (k - ?e)) :: rat) \<le> of_int (rne (x / 2 powi ?e))"
      by (simp only: of_int_le_iff)
    then have bound: "of_int (m * 2 ^ nat (k - ?e)) * 2 powi ?e \<le> fp_round p x"
      unfolding fr by (simp add: mult_right_mono)
    have "(of_int (m * 2 ^ nat (k - ?e)) :: rat) * 2 powi ?e
            = of_int m * (2 powi (k - ?e) * 2 powi ?e)"
      using True by (simp add: power_int_def)
    also have "\<dots> = ?r" by (simp add: power_int_diff)
    finally have scaled: "(of_int (m * 2 ^ nat (k - ?e)) :: rat) * 2 powi ?e = ?r" .
    show ?thesis using bound unfolding scaled .
  next
    case False
    then have ke: "int p + k \<le> ?e + int p - 1" by simp
    have p: "0 < p" using m by (cases p) auto
    have "(2::rat) powi (?e + int p - 1) \<le> x"
      using fp_exponent_bounds(1)[OF xn, of p] x0 by simp
    then have "2 powi (int p - 1) * 2 powi ?e \<le> x"
      by (simp add: power_int_add[symmetric] algebra_simps)
    then have "(2::rat) powi (int p - 1) \<le> x / 2 powi ?e"
      by (simp add: le_divide_eq)
    moreover have pw: "(2::rat) powi (int p - 1) = of_int (2 ^ (p - 1))"
      using p by (simp add: power_int_def nat_diff_distrib)
    ultimately have "2 ^ (p - 1) \<le> rne (x / 2 powi ?e)"
      by (intro rne_ge) simp
    then have "(of_int (2 ^ (p - 1)) :: rat) \<le> of_int (rne (x / 2 powi ?e))"
      by (simp only: of_int_le_iff)
    then have "of_int (2 ^ (p - 1)) * 2 powi ?e \<le> fp_round p x"
      unfolding fr by (simp add: mult_right_mono)
    moreover have "(of_int (2 ^ (p - 1)) :: rat) * 2 powi ?e = 2 powi (?e + int p - 1)"
    proof -
      have "(2::rat) powi (int p - 1) * 2 powi ?e = 2 powi (int p - 1 + ?e)"
        by (simp add: power_int_add)
      also have "int p - 1 + ?e = ?e + int p - 1" by simp
      finally show ?thesis unfolding pw .
    qed
    moreover have "?r \<le> 2 powi (int p + k)"
    proof -
      have "(of_int m :: rat) \<le> 2 ^ p" using m(2) by (metis less_imp_le of_int_le_iff of_int_numeral of_int_power)
      then have "?r \<le> 2 ^ p * 2 powi k" by (simp add: mult_right_mono)
      then show ?thesis by (simp add: power_int_add)
    qed
    moreover have "(2::rat) powi (int p + k) \<le> 2 powi (?e + int p - 1)"
      using ke by (intro power_int_increasing) simp_all
    ultimately show ?thesis by linarith
  qed
qed

lemma dadd_of_nat: "a + b \<le> 2 ^ 53 \<Longrightarrow> dadd (of_nat a) (of_nat b) = of_nat (a + b)"
  using fp_round_of_nat[of "a + b" 53] by (simp add: dadd_def)

lemma fadd_synapse_delay: "0 \<le> w \<Longrightarrow> synapse_delay \<le> fadd synapse_delay w"
  using fp_round_lower[of 5 24 2 "20 + w"] by (simp add: fadd_def synapse_delay_def)

lemma dadd_absorb: "dadd (2 ^ 53) 1 = 2 ^ 53"
  unfolding dadd_def by code_simp


section \<open>Properties of the driver loop\<close>

lemma dadd_numeral_numeral:
  "numeral a + numeral b \<le> (2::nat) ^ 53 \<Longrightarrow> dadd (numeral a) (numeral b) = numeral a + numeral b"
  using dadd_of_nat[of "numeral a" "numeral b"] by simp

lemma dadd_zero_numeral:
  "numeral b \<le> (2::nat) ^ 53 \<Longrightarrow> dadd 0 (numeral b) = numeral b"
  using dadd_of_nat[of 0 "numeral b"] by simp

text \<open>
  Claim C1, amended.  With \<open>t_final = 17\<close> and \<open>min_delay = 5\<close> the loop makes
  four passes.  \<open>delta\<close> is computed once, before the loop, as \<open>min(min_delay, tfinal) = 5\<close>,
  and is not recomputed; the groups are advanced to \<open>min(t+delta, tfinal)\<close>, that is to
  5, 10, 15 and 17, so the epochs have the lengths 5, 5, 5, 2 and no group is advanced
  past 17.  The loop variable \<open>t\<close> itself is incremented by \<open>delta\<close> in every pass and
  is 20 when the loop ends.
\<close>

theorem run_example_epochs: "run 5 17 = Some (20, [(0, 5), (5, 10), (10, 15), (15, 17)])
  \<and> epoch_lengths [(0, 5), (5, 10), (10, 15), (15, 17)] = [5, 5, 5, 2]"
  by (simp add: run_def stepping.simps dadd_numeral_numeral dadd_zero_numeral epoch_lengths_def)

text \<open>
  Claim C1 as stated says that the loop ends with \<open>t\<close> equal to exactly 17.  It does not.
\<close>

theorem run_example_final_time: "map_option fst (run 5 17) \<noteq> Some 17"
  by (simp add: run_def stepping.simps dadd_numeral_numeral dadd_zero_numeral)

lemma stepping_exact:
  assumes below: "\<forall>k<n. of_nat k * delta < tfinal"
    and reach: "tfinal \<le> of_nat n * delta"
    and exact: "\<forall>k<n. dadd (of_nat k * delta) delta = of_nat (Suc k) * delta"
    and j: "j \<le> n"
  shows "\<exists>ps. stepping (of_nat j * delta) delta tfinal passes = Some (of_nat n * delta, ps)
           \<and> length ps = length passes + (n - j)"
  using j
proof (induction "n - j" arbitrary: j passes)
  case 0
  then have "j = n" by simp
  then show ?case using reach by (subst stepping.simps) simp
next
  case (Suc d)
  then have jn: "j < n" and d: "d = n - Suc j" and le: "Suc j \<le> n" by simp_all
  from Suc.hyps(1)[OF d le, of "passes @ [(of_nat j * delta, min (dadd (of_nat j * delta) delta) tfinal)]"]
  obtain ps where "stepping (of_nat (Suc j) * delta) delta tfinal
       (passes @ [(of_nat j * delta, min (dadd (of_nat j * delta) delta) tfinal)]) = Some (of_nat n * delta, ps)"
    and "length ps = length passes + 1 + (n - Suc j)" by auto
  moreover have "of_nat j * delta < tfinal" using below jn by blast
  moreover have "dadd (of_nat j * delta) delta = of_nat (Suc j) * delta" using exact jn by blast
  ultimately show ?case using jn by (subst stepping.simps) auto
qed

lemma ceiling_steps:
  fixes tfinal delta :: rat
  assumes "0 < delta"
  shows "\<forall>k < nat \<lceil>tfinal / delta\<rceil>. of_nat k * delta < tfinal"
    and "tfinal \<le> of_nat (nat \<lceil>tfinal / delta\<rceil>) * delta"
proof -
  show "\<forall>k < nat \<lceil>tfinal / delta\<rceil>. of_nat k * delta < tfinal"
  proof (intro allI impI)
    fix k assume "k < nat \<lceil>tfinal / delta\<rceil>"
    then have "int k < \<lceil>tfinal / delta\<rceil>" by linarith
    then have "of_int (int k) < tfinal / delta" by (simp only: less_ceiling_iff)
    then show "of_nat k * delta < tfinal" using assms by (simp add: pos_less_divide_eq)
  qed
  have "tfinal / delta \<le> of_int \<lceil>tfinal / delta\<rceil>" by (rule le_of_int_ceiling)
  also have "\<dots> \<le> of_nat (nat \<lceil>tfinal / delta\<rceil>)"
    by (metis of_int_le_iff of_int_of_nat_eq le_nat_floor nat_le_iff order_refl int_nat_eq  linorder_linear of_nat_0_le_iff of_int_0_le_iff)
  finally show "tfinal \<le> of_nat (nat \<lceil>tfinal / delta\<rceil>) * delta"
    using assms by (simp add: pos_divide_le_eq)
qed

lemma ceiling_min:
  fixes tfinal md :: rat
  assumes "0 < tfinal" "0 < md"
  shows "\<lceil>tfinal / min md tfinal\<rceil> = \<lceil>tfinal / md\<rceil>"
proof (cases "md \<le> tfinal")
  case True then show ?thesis by (simp add: min_def)
next
  case False
  then have "tfinal / md < 1" "0 < tfinal / md" using assms by simp_all
  then have "\<lceil>tfinal / md\<rceil> = 1" by (simp add: ceiling_eq_iff)
  then show ?thesis using False assms by (simp add: min_def)
qed

text \<open>
  Claim C2, amended.  For \<open>t_final > 0\<close> and \<open>min_delay > 0\<close>, \<open>delta\<close> is positive, and
  if every addition \<open>t += delta\<close> the loop performs is exact in \<open>double\<close> arithmetic
  (the value of \<open>t\<close> before pass \<open>k\<close> is \<open>k * delta\<close>), then the loop terminates after
  exactly \<open>\<lceil>t_final / min_delay\<rceil>\<close> passes.
\<close>

theorem run_terminates_when_exact:
  assumes "0 < tfinal" and "0 < md"
    and "\<forall>k < nat \<lceil>tfinal / md\<rceil>.
           dadd (of_nat k * min md tfinal) (min md tfinal) = of_nat (Suc k) * min md tfinal"
  shows "0 < min md tfinal \<and>
         (\<exists>t passes. run md tfinal = Some (t, passes) \<and> length passes = nat \<lceil>tfinal / md\<rceil>)"
proof -
  let ?d = "min md tfinal"
  let ?n = "nat \<lceil>tfinal / md\<rceil>"
  have d: "0 < ?d" using assms by simp
  have n: "nat \<lceil>tfinal / ?d\<rceil> = ?n" using ceiling_min[OF assms(1,2)] by simp
  note c = ceiling_steps[OF d, of tfinal, unfolded n]
  from stepping_exact[OF c(1) c(2) assms(3), of 0 "[]"]
  show ?thesis using d by (auto simp: run_def)
qed

text \<open>The hypotheses hold for \<open>t_final = 17\<close>, \<open>min_delay = 5\<close>: four passes.\<close>

theorem run_terminates_when_exact_witness:
  "(0::rat) < 17 \<and> (0::rat) < 5 \<and> 0 < min (5::rat) 17 \<and>
   (\<exists>t passes. run 5 17 = Some (t, passes) \<and> length passes = nat \<lceil>(17::rat) / 5\<rceil>)"
proof -
  have "\<forall>k < nat \<lceil>(17::rat) / 5\<rceil>.
           dadd (of_nat k * min 5 17) (min 5 17) = of_nat (Suc k) * min 5 17"
  proof (intro allI impI)
    fix k :: nat assume "k < nat \<lceil>(17::rat) / 5\<rceil>"
    moreover have "\<lceil>(17::rat) / 5\<rceil> = 4" by (rule ceiling_unique) simp_all
    ultimately have "k < 4" by simp
    then have "k * 5 + 5 \<le> 2 ^ 53" by simp
    from dadd_of_nat[OF this] show "dadd (of_nat k * min 5 17) (min 5 17) = of_nat (Suc k) * min 5 17"
      by (simp add: algebra_simps)
  qed
  from run_terminates_when_exact[of 17 5, OF _ _ this] show ?thesis by simp
qed

lemma stepping_absorbed:
  assumes "stepping t delta tfinal passes = Some y"
  shows "\<not> (delta = 1 \<and> tfinal = 2 ^ 54 \<and> (\<exists>k::nat. k \<le> 2 ^ 53 \<and> t = of_nat k))"
proof (rule stepping.raw_induct[where P = "\<lambda>t delta tfinal passes y.
         \<not> (delta = 1 \<and> tfinal = 2 ^ 54 \<and> (\<exists>k::nat. k \<le> 2 ^ 53 \<and> t = of_nat k))", OF _ assms])
  fix stepping' :: "rat \<Rightarrow> rat \<Rightarrow> rat \<Rightarrow> (rat \<times> rat) list \<Rightarrow> (rat \<times> (rat \<times> rat) list) option"
  fix t delta tfinal :: rat and passes :: "(rat \<times> rat) list" and y
  assume IH: "\<And>t delta tfinal passes y. stepping' t delta tfinal passes = Some y \<Longrightarrow>
         \<not> (delta = 1 \<and> tfinal = 2 ^ 54 \<and> (\<exists>k::nat. k \<le> 2 ^ 53 \<and> t = of_nat k))"
    and step: "(if t < tfinal
         then stepping' (dadd t delta) delta tfinal (passes @ [(t, min (dadd t delta) tfinal)])
         else Some (t, passes)) = Some y"
  show "\<not> (delta = 1 \<and> tfinal = 2 ^ 54 \<and> (\<exists>k::nat. k \<le> 2 ^ 53 \<and> t = of_nat k))"
  proof
    assume a: "delta = 1 \<and> tfinal = 2 ^ 54 \<and> (\<exists>k::nat. k \<le> 2 ^ 53 \<and> t = of_nat k)"
    then obtain k :: nat where k: "k \<le> 2 ^ 53" "t = of_nat k" by blast
    have "(of_nat k :: rat) \<le> of_nat (2 ^ 53)" using k(1) by (simp only: of_nat_le_iff)
    then have lt: "t < tfinal" using a k by simp
    have next_t: "\<exists>k'::nat. k' \<le> 2 ^ 53 \<and> dadd t 1 = of_nat k'"
    proof (cases "k = 2 ^ 53")
      case True
      then have "dadd t 1 = of_nat (2 ^ 53)" using dadd_absorb k(2) by simp
      then show ?thesis by blast
    next
      case False
      then have "k + 1 \<le> 2 ^ 53" using k(1) by simp
      from dadd_of_nat[OF this] have "dadd t 1 = of_nat (k + 1)" using k(2) by simp
      then show ?thesis using \<open>k + 1 \<le> 2 ^ 53\<close> by blast
    qed
    from step lt a
    have "stepping' (dadd t 1) 1 (2 ^ 54) (passes @ [(t, min (dadd t 1) (2 ^ 54))]) = Some y"
      by simp
    from IH[OF this] next_t show False by blast
  qed
qed

text \<open>
  Claim C2 as stated fails in \<open>double\<close> arithmetic.  With \<open>t_final = 2^54\<close> and
  \<open>min_delay = 1\<close> the loop variable reaches \<open>2^53\<close>, where \<open>t + 1\<close> rounds back to
  \<open>t\<close>: the loop never terminates.
\<close>

theorem run_absorbed_never_terminates: "run 1 (2 ^ 54) = None"
proof (cases "run 1 (2 ^ 54)")
  case None then show ?thesis .
next
  case (Some y)
  then have "stepping 0 1 (2 ^ 54) [] = Some y" by (simp add: run_def)
  from stepping_absorbed[OF this] have False by (auto dest: spec[of _ "0::nat"])
  then show ?thesis ..
qed

section \<open>Properties of one pass of the loop body\<close>






section \<open>Properties of the index mapper\<close>

lemma make_index_nth:
  "k \<le> length counts \<Longrightarrow> make_index counts ! k = sum_list (take k counts)"
  unfolding make_index_def by (simp add: nth_append less_Suc_eq_le del: upt_Suc)

lemma sum_list_take_Suc:
  "k < length counts \<Longrightarrow> sum_list (take (Suc k) counts) = sum_list (take k counts) + counts ! k"
  by (simp add: take_Suc_conv_app_nth)

text \<open>
  Claim C3.  For every count sequence of length \<open>n\<close>, \<open>make_index\<close> returns \<open>n + 1\<close>
  offsets with \<open>offsets[0] = 0\<close>, \<open>offsets[k+1] = offsets[k] + counts[k]\<close> for every
  \<open>k < n\<close>, and \<open>offsets[n] = sum(counts)\<close>.  The function is total.  The statement
  holds for every element type with an addition: for natural numbers (the non-negative
  counts of the claim) and for the wrapping 32-bit \<open>id_type\<close> alike.
\<close>

theorem make_index_prefix_sums:
  "length (make_index counts) = length counts + 1
   \<and> make_index counts ! 0 = 0
   \<and> (\<forall>k < length counts. make_index counts ! (k + 1) = make_index counts ! k + counts ! k)
   \<and> make_index counts ! length counts = sum_list counts"
proof (intro conjI allI impI)
  show "length (make_index counts) = length counts + 1"
    by (simp add: make_index_def)
  show "make_index counts ! 0 = 0"
    by (simp add: make_index_nth)
  show "make_index counts ! length counts = sum_list counts"
    by (simp add: make_index_nth)
  fix k assume "k < length counts"
  then show "make_index counts ! (k + 1) = make_index counts ! k + counts ! k"
    by (simp add: make_index_nth sum_list_take_Suc)
qed

text \<open>
  The counts \<open>[2, 2, 2, 2]\<close> of the spec's scenario give the offsets \<open>[0, 2, 4, 6, 8]\<close>.
\<close>

theorem make_index_prefix_sums_witness:
  "(2::nat) < length [2, 2, 2, 2 :: nat]
   \<and> make_index [2, 2, 2, 2 :: nat] ! (2 + 1) = make_index [2, 2, 2, 2] ! 2 + [2, 2, 2, 2] ! 2
   \<and> make_index [2, 2, 2, 2 :: nat] ! length [2, 2, 2, 2 :: nat] = sum_list [2, 2, 2, 2]
   \<and> make_index [2, 2, 2, 2 :: nat] = [0, 2, 4, 6, 8]"
proof -
  have h: "(2::nat) < length [2, 2, 2, 2 :: nat]" by simp
  have v: "make_index [2, 2, 2, 2 :: nat] = [0, 2, 4, 6, 8]"
    by (simp add: make_index_def upt_rec)
  from make_index_prefix_sums[of "[2, 2, 2, 2 :: nat]"] h v show ?thesis by blast
qed


section \<open>Properties of the communicator\<close>

text \<open>
  Claim C6.  For every local index \<open>lid\<close> of a domain,
  \<open>group_lid(group_gid_from_group_lid(lid)) == lid\<close>.
\<close>

theorem group_lid_round_trip: "group_lid c (group_gid_from_group_lid c lid) = lid"
  by (simp add: group_lid_def group_gid_from_group_lid_def)

text \<open>
  Claim C7.  Once \<open>construct()\<close> has succeeded, \<open>add_connection\<close> fails with a
  UsageError; it does not add the connection.
\<close>

theorem add_connection_after_construct:
  "construct contributions c = Inr c' \<Longrightarrow>
     add_connection c' con = Inl UsageError \<and> constructed c'"
  by (auto simp: construct_def add_connection_def split: if_splits)

text \<open>
  A communicator without connections is constructed; a connection added afterwards is
  refused.
\<close>

theorem add_connection_after_construct_witness:
  "construct [] \<lparr>connections = [], constructed = False, global_min_delay = None,
       gid_first = 0, num_local_groups = 4, num_global_groups = 4, num_global_targets = 4\<rparr>
     = Inr \<lparr>connections = [], constructed = True, global_min_delay = None,
       gid_first = 0, num_local_groups = 4, num_global_groups = 4, num_global_targets = 4\<rparr>
   \<and> add_connection \<lparr>connections = [], constructed = True, global_min_delay = None,
       gid_first = 0, num_local_groups = 4, num_global_groups = 4, num_global_targets = 4\<rparr>
       \<lparr>source = 1, destination = 0, weight = 1, delay = 20\<rparr> = Inl UsageError"
proof -
  have c: "construct [] \<lparr>connections = [], constructed = False, global_min_delay = None,
       gid_first = 0, num_local_groups = 4, num_global_groups = 4, num_global_targets = 4\<rparr>
     = Inr \<lparr>connections = [], constructed = True, global_min_delay = None,
       gid_first = 0, num_local_groups = 4, num_global_groups = 4, num_global_targets = 4\<rparr>"
    by (simp add: construct_def policy_min_def)
  from add_connection_after_construct[OF c] c show ?thesis by simp
qed

lemma fold_min_delay_in:
  "fold (\<lambda>c m. min (delay c) m) rest a \<in> insert a (delay ` set rest)"
proof (induction rest arbitrary: a)
  case Nil show ?case by simp
next
  case (Cons c rest)
  from Cons[of "min (delay c) a"] show ?case by (auto simp: min_def split: if_splits)
qed

lemma fold_min_delay_le:
  "fold (\<lambda>c m. min (delay c) m) rest a \<le> a
   \<and> (\<forall>c \<in> set rest. fold (\<lambda>c m. min (delay c) m) rest a \<le> delay c)"
proof (induction rest arbitrary: a)
  case Nil show ?case by simp
next
  case (Cons c rest)
  from Cons[of "min (delay c) a"] show ?case by auto
qed

lemma local_min_delay_in:
  assumes "local_min_delay cons = Some m"
  shows "\<exists>con \<in> set cons. delay con = m"
proof (cases cons)
  case Nil
  then show ?thesis using assms by (simp add: local_min_delay_def)
next
  case (Cons con rest)
  then have "m = fold (\<lambda>c m. min (delay c) m) rest (delay con)"
    using assms by (simp add: local_min_delay_def)
  with fold_min_delay_in[of rest "delay con"] show ?thesis using Cons by auto
qed

lemma local_min_delay_le:
  assumes "con \<in> set cons"
  shows "\<exists>m. local_min_delay cons = Some m \<and> m \<le> delay con"
proof (cases cons)
  case Nil
  then show ?thesis using assms by simp
next
  case (Cons c rest)
  then have "local_min_delay cons = Some (fold (\<lambda>c m. min (delay c) m) rest (delay c))"
    by (simp add: local_min_delay_def)
  with fold_min_delay_le[of rest "delay c"] show ?thesis using Cons assms by auto
qed

lemma opt_min_cases: "opt_min v acc = v \<or> opt_min v acc = acc"
  by (cases v; cases acc) (auto simp: min_def)

lemma opt_min_le:
  "v = Some x \<or> acc = Some x \<Longrightarrow> \<exists>m. opt_min v acc = Some m \<and> m \<le> x"
  by (cases v; cases acc) auto

lemma fold_opt_min_in:
  "fold opt_min vs acc = Some m \<Longrightarrow> Some m \<in> insert acc (set vs)"
proof (induction vs arbitrary: acc)
  case Nil then show ?case by simp
next
  case (Cons v vs)
  from Cons.IH[of "opt_min v acc"] Cons.prems opt_min_cases[of v acc]
  show ?case by auto
qed

lemma fold_opt_min_le:
  "Some x \<in> insert acc (set vs) \<Longrightarrow> \<exists>m. fold opt_min vs acc = Some m \<and> m \<le> x"
proof (induction vs arbitrary: acc x)
  case Nil then show ?case by auto
next
  case (Cons v vs)
  show ?case
  proof (cases "v = Some x \<or> acc = Some x")
    case True
    from opt_min_le[OF this] obtain m where m: "opt_min v acc = Some m" "m \<le> x" by blast
    from Cons.IH[of m "opt_min v acc"] m obtain m' where
      "fold opt_min vs (opt_min v acc) = Some m'" "m' \<le> m" by auto
    then show ?thesis using m by auto
  next
    case False
    then have "Some x \<in> set vs" using Cons.prems by auto
    from Cons.IH[of x "opt_min v acc"] this show ?thesis by auto
  qed
qed

lemma construct_success:
  assumes "construct contributions c = Inr c'"
  shows "\<not> constructed c"
    and "\<forall>con \<in> set (connections c). 0 \<le> delay con \<and> source con < num_global_groups c
                                      \<and> destination con < num_global_targets c"
    and "\<forall>m. min_delay c' = Some m \<longrightarrow> 0 < m"
  using assms
  by (auto simp: construct_def bad_connection_def min_delay_def not_le not_less
           split: if_splits option.splits)

text \<open>
  Claim C5.  After \<open>construct()\<close> on all domains, \<open>min_delay()\<close> of every domain \<open>d\<close> on
  which \<open>construct()\<close> has succeeded is the minimum delay over the connections of all
  domains: it is the delay of some connection of some domain, and no connection of any
  domain has a smaller delay.  The domain \<open>d\<close> itself need not have any connection.
\<close>

theorem min_delay_is_global_minimum:
  assumes d: "d < length domains"
    and ok: "construct_all domains ! d = Inr c'"
    and some: "\<exists>c \<in> set domains. connections c \<noteq> []"
  shows "\<exists>m. min_delay c' = Some m
           \<and> (\<exists>c \<in> set domains. \<exists>con \<in> set (connections c). delay con = m)
           \<and> (\<forall>c \<in> set domains. \<forall>con \<in> set (connections c). m \<le> delay con)"
proof -
  let ?contrib = "map (\<lambda>c. local_min_delay (connections c)) domains"
  have "construct ?contrib (domains ! d) = Inr c'"
    using d ok by (simp add: construct_all_def)
  then have res: "min_delay c' = policy_min ?contrib"
    by (auto simp: construct_def min_delay_def split: if_splits)
  from some obtain c0 con0 where c0: "c0 \<in> set domains" "con0 \<in> set (connections c0)"
    by (metis last_in_set)
  from local_min_delay_le[OF c0(2)] obtain m0 where
    m0: "local_min_delay (connections c0) = Some m0" by blast
  then have "Some m0 \<in> insert None (set ?contrib)" using c0(1) by force
  from fold_opt_min_le[OF this] obtain m where m: "policy_min ?contrib = Some m"
    by (auto simp: policy_min_def)
  have attained: "\<exists>c \<in> set domains. \<exists>con \<in> set (connections c). delay con = m"
  proof -
    from fold_opt_min_in[of ?contrib None m] m have "Some m \<in> set ?contrib"
      by (simp add: policy_min_def)
    then obtain c where "c \<in> set domains" "local_min_delay (connections c) = Some m" by auto
    then show ?thesis using local_min_delay_in by blast
  qed
  have lower: "\<forall>c \<in> set domains. \<forall>con \<in> set (connections c). m \<le> delay con"
  proof (intro ballI)
    fix c con assume c: "c \<in> set domains" and con: "con \<in> set (connections c)"
    from local_min_delay_le[OF con] obtain ml where
      ml: "local_min_delay (connections c) = Some ml" "ml \<le> delay con" by blast
    then have "Some ml \<in> insert None (set ?contrib)" using c by force
    from fold_opt_min_le[OF this] m ml(2) show "m \<le> delay con"
      by (auto simp: policy_min_def)
  qed
  show ?thesis using res m attained lower by simp
qed

text \<open>
  The example of the claim, with a third domain that has no connections: delays
  \<open>{5, 3}\<close> on domain 0, \<open>{7}\<close> on domain 1, none on domain 2.  \<open>construct()\<close> succeeds on
  domain 2 and \<open>min_delay()\<close> is 3 there.
\<close>

theorem min_delay_is_global_minimum_witness:
  "(2::nat) < length [example_domain 0 [5, 3], example_domain 1 [7], example_domain 2 []]
   \<and> construct_all [example_domain 0 [5, 3], example_domain 1 [7], example_domain 2 []] ! 2
       = Inr ((example_domain 2 [])\<lparr>constructed := True, global_min_delay := Some 3\<rparr>)
   \<and> (\<exists>c \<in> set [example_domain 0 [5, 3], example_domain 1 [7], example_domain 2 []].
         connections c \<noteq> [])
   \<and> min_delay ((example_domain 2 [])\<lparr>constructed := True, global_min_delay := Some 3\<rparr>)
       = Some 3"
proof -
  let ?ex = "[example_domain 0 [5, 3], example_domain 1 [7], example_domain 2 []]"
  let ?c' = "(example_domain 2 [])\<lparr>constructed := True, global_min_delay := Some 3\<rparr>"
  have h1: "(2::nat) < length ?ex" by simp
  have h2: "construct_all ?ex ! 2 = Inr ?c'"
    by (simp add: construct_all_def construct_def bad_connection_def local_min_delay_def
          policy_min_def example_domain_def example_connection_def)
  have h3: "\<exists>c \<in> set ?ex. connections c \<noteq> []"
    by (simp add: example_domain_def)
  from min_delay_is_global_minimum[OF h1 h2 h3] obtain m where
    m: "min_delay ?c' = Some m"
    and att: "\<exists>c \<in> set ?ex. \<exists>con \<in> set (connections c). delay con = m"
    and low: "\<forall>c \<in> set ?ex. \<forall>con \<in> set (connections c). m \<le> delay con"
    by blast
  from att have "m = 5 \<or> m = 3 \<or> m = 7"
    by (auto simp: example_domain_def example_connection_def)
  moreover from low have "m \<le> 3"
    by (simp add: example_domain_def example_connection_def)
  ultimately have "m = 3" by auto
  with m h1 h2 h3 show ?thesis by blast
qed


section \<open>Properties of \<open>add_cable\<close>\<close>

text \<open>
  Claim C8, amended.  When the segment handed to \<open>add_cable\<close> is a cable segment, the call
  throws exactly when \<open>parent\<close> is strictly greater than \<open>num_segments()\<close>; a call with
  \<open>parent == num_segments()\<close>, the index the new cable itself receives, is accepted and
  records that parent.
\<close>

theorem add_cable_errors:
  assumes "as_cable cable = Some cab"
  shows "(isl (add_cable cell parent cable) \<longleftrightarrow> num_segments cell < parent)
     \<and> (parent = num_segments cell \<longrightarrow>
          add_cable cell parent cable
            = Inr (cell\<lparr>segments := segments cell @ [cable],
                       parents := parents cell @ [num_segments cell]\<rparr>, cab))"
  using assms by (simp add: add_cable_def)

lemma add_cable_rejects_other_segments:
  "as_cable cable = None \<Longrightarrow>
     add_cable cell parent cable = Inl (cable_cell_error ''segment is not a cable segment'')"
  by (simp add: add_cable_def)

text \<open>
  On a new cell (one segment), a cable with parent 1 is accepted and a cable with
  parent 2 is refused.
\<close>

theorem add_cable_errors_witness:
  "as_cable (cable_segment (200::nat) :: (unit, nat) segment) = Some 200
   \<and> \<not> isl (add_cable (new_cable_cell :: (unit, nat, 32 word) cable_cell) 1 (cable_segment 200))
   \<and> add_cable (new_cable_cell :: (unit, nat, 32 word) cable_cell) 1 (cable_segment 200)
       = Inr (\<lparr>segments = [placeholder_segment, cable_segment 200], parents = [0, 1]\<rparr>, 200)
   \<and> isl (add_cable (new_cable_cell :: (unit, nat, 32 word) cable_cell) 2 (cable_segment 200))"
proof -
  have h: "as_cable (cable_segment (200::nat) :: (unit, nat) segment) = Some 200" by simp
  have n: "num_segments (new_cable_cell :: (unit, nat, 32 word) cable_cell) = 1"
    by (simp add: num_segments_def new_cable_cell_def)
  from add_cable_errors[OF h, of "new_cable_cell :: (unit, nat, 32 word) cable_cell" 1]
       add_cable_errors[OF h, of "new_cable_cell :: (unit, nat, 32 word) cable_cell" 2]
  show ?thesis unfolding n by (simp add: new_cable_cell_def)
qed

text \<open>
  Claim C8 as stated says that \<open>add_cable\<close> throws only when \<open>parent > num_segments()\<close>.
  A segment that is not a cable is refused whatever the parent: here with parent 0.
\<close>

theorem add_cable_not_a_cable:
  "add_cable (new_cable_cell :: (unit, nat, 32 word) cable_cell) 0 (soma_segment ())
     = Inl (cable_cell_error ''segment is not a cable segment'')
   \<and> \<not> (0 > num_segments (new_cable_cell :: (unit, nat, 32 word) cable_cell))"
  by (simp add: add_cable_def)


section \<open>Properties of the domain decomposition\<close>

lemma sint_u32: "sint (w::u32) = (uint w + 2 ^ 31) mod 2 ^ 32 - 2 ^ 31"
  using int_word_sint[of "uint w", where 'a=32] by simp

lemma uint_unat_u32: "uint (w::u32) = int (unat w)"
  by simp

lemma sint_small:
  assumes "unat (w::u32) < 2 ^ 31"
  shows "sint w = int (unat w)"
proof -
  have "int (unat w) < 2 ^ 31"
    using assms by (metis of_nat_less_iff of_nat_numeral of_nat_power)
  then have "(int (unat w) + 2 ^ 31) mod 2 ^ 32 = int (unat w) + 2 ^ 31"
    by (intro mod_pos_pos_trivial) simp_all
  then show ?thesis unfolding sint_u32 uint_unat_u32 by linarith
qed

lemma sint_pos_unat:
  assumes "0 < sint (w::u32)"
  shows "unat w < 2 ^ 31" and "0 < unat w"
proof -
  have u: "unat w < 2 ^ 32" using unsigned_less[of w, where 'a=nat] by simp
  show "unat w < 2 ^ 31"
  proof (rule ccontr)
    assume "\<not> unat w < 2 ^ 31"
    then have "(2::nat) ^ 31 \<le> unat w" by simp
    then have ge: "(2::int) ^ 31 \<le> int (unat w)"
      by (metis of_nat_le_iff of_nat_numeral of_nat_power)
    have lt: "int (unat w) < 2 ^ 32"
      using u by (metis of_nat_less_iff of_nat_numeral of_nat_power)
    have "(int (unat w) + 2 ^ 31) mod 2 ^ 32 = (int (unat w) + 2 ^ 31 - 2 ^ 32) mod 2 ^ 32"
      by (rule minus_mod_self2 [symmetric])
    also have "\<dots> = int (unat w) + 2 ^ 31 - 2 ^ 32"
      using ge lt by (intro mod_pos_pos_trivial) simp_all
    finally have "sint w < 0" unfolding sint_u32 uint_unat_u32 using lt by linarith
    with assms show False by simp
  qed
  then have "sint w = int (unat w)" by (rule sint_small)
  with assms have "0 < int (unat w)" by (simp only:)
  then show "0 < unat w" by (simp only: of_nat_0_less_iff)
qed

lemma unat_ncell_local_of:
  fixes ncell_global num_domains :: u32 and d :: nat
  assumes nd: "0 <s num_domains" and d: "d < unat num_domains"
  shows "unat (ncell_local_of ncell_global num_domains (of_nat d))
           = unat ncell_global div unat num_domains
             + (if d < unat ncell_global mod unat num_domains then 1 else 0)"
proof -
  let ?n = "unat ncell_global" and ?N = "unat num_domains"
  have "0 < sint num_domains" using nd by (simp add: word_sless_alt)
  from sint_pos_unat[OF this] have N: "?N < 2 ^ 31" "0 < ?N" .
  have n: "?n < 2 ^ 32" using unsigned_less[of ncell_global, where 'a=nat] by simp
  let ?q = "ncell_global div num_domains"
  let ?r = "ncell_global - ?q * num_domains"
  have r: "?r = ncell_global mod num_domains" by (rule minus_div_mult_eq_mod)
  have ur: "unat ?r = ?n mod ?N" unfolding r by (rule unat_mod)
  then have "unat ?r < 2 ^ 31" using N by (metis mod_less_divisor less_trans)
  then have "sint ?r = int (unat ?r)" by (rule sint_small)
  then have sr: "sint ?r = int (?n mod ?N)" by (simp only: ur)
  have "d < 2 ^ LENGTH(32)" using d N(1) by simp
  then have ud: "unat (of_nat d :: u32) = d" by (simp only: unat_of_nat mod_less)
  then have "unat (of_nat d :: u32) < 2 ^ 31" using d N(1) by (metis less_trans)
  then have "sint (of_nat d :: u32) = int (unat (of_nat d :: u32))" by (rule sint_small)
  then have sd: "sint (of_nat d :: u32) = int d" by (simp only: ud)
  have cmp: "(of_nat d <s ?r) \<longleftrightarrow> d < ?n mod ?N"
    unfolding word_sless_alt sr sd by simp
  have uq: "unat ?q = ?n div ?N" by (rule unat_div)
  show ?thesis
  proof (cases "d < ?n mod ?N")
    case True
    then have "?N \<noteq> 1" by auto
    then have "2 \<le> ?N" using N(2) by linarith
    then have "?n div ?N \<le> ?n div 2" by (intro div_le_mono2) simp_all
    moreover have "?n div 2 < 2 ^ 31" using n by simp
    ultimately have "unat ?q + unat (1::u32) < 2 ^ LENGTH(32)" unfolding uq by simp
    then have "unat (?q + 1) = unat ?q + unat (1::u32)" by (simp only: unat_add_lem)
    then have "unat (?q + 1) = ?n div ?N + 1" unfolding uq by simp
    then show ?thesis using True cmp by (simp add: ncell_local_of_def Let_def)
  next
    case False
    then show ?thesis using cmp uq by (simp add: ncell_local_of_def Let_def)
  qed
qed

lemma sum_indicator_less:
  "r \<le> N \<Longrightarrow> (\<Sum>d<N. if d < r then 1 else 0 :: nat) = r"
proof -
  assume "r \<le> N"
  have "{..<N} \<inter> {d. d < r} = {..<r}" using \<open>r \<le> N\<close> by auto
  then show ?thesis by (simp add: sum.If_cases)
qed

text \<open>
  Claim C9.  For every \<open>ncell_global\<close> and every \<open>num_domains > 0\<close>, the local cell counts
  of the domains \<open>0, \<dots>, num_domains - 1\<close> add up to \<open>ncell_global\<close> (as numbers, without
  wrap-around), and the counts of any two domains differ by at most 1.
\<close>

theorem ncell_local_partition:
  fixes ncell_global num_domains :: u32
  assumes "0 <s num_domains"
  shows "(\<Sum>d < unat num_domains. unat (ncell_local_of ncell_global num_domains (of_nat d)))
           = unat ncell_global
    \<and> (\<forall>d1 < unat num_domains. \<forall>d2 < unat num_domains.
          unat (ncell_local_of ncell_global num_domains (of_nat d1))
            \<le> unat (ncell_local_of ncell_global num_domains (of_nat d2)) + 1)"
proof
  let ?n = "unat ncell_global" and ?N = "unat num_domains"
  have "0 < sint num_domains" using assms by (simp add: word_sless_alt)
  from sint_pos_unat[OF this] have N: "0 < ?N" by simp
  have "(\<Sum>d < ?N. unat (ncell_local_of ncell_global num_domains (of_nat d)))
          = (\<Sum>d < ?N. ?n div ?N + (if d < ?n mod ?N then 1 else 0))"
    by (rule sum.cong) (simp_all add: unat_ncell_local_of[OF assms])
  also have "\<dots> = ?N * (?n div ?N) + (\<Sum>d < ?N. if d < ?n mod ?N then 1 else 0)"
    by (simp add: sum.distrib)
  also have "(\<Sum>d < ?N. if d < ?n mod ?N then 1 else 0 :: nat) = ?n mod ?N"
    using N by (intro sum_indicator_less) simp
  finally show "(\<Sum>d < ?N. unat (ncell_local_of ncell_global num_domains (of_nat d))) = ?n"
    by simp
  show "\<forall>d1 < ?N. \<forall>d2 < ?N.
          unat (ncell_local_of ncell_global num_domains (of_nat d1))
            \<le> unat (ncell_local_of ncell_global num_domains (of_nat d2)) + 1"
    by (simp add: unat_ncell_local_of[OF assms])
qed

text \<open>
  Ten cells on three domains: 4, 3 and 3.
\<close>

theorem ncell_local_partition_witness:
  "(0::u32) <s 3
   \<and> (\<Sum>d < unat (3::u32). unat (ncell_local_of 10 3 (of_nat d))) = unat (10::u32)
   \<and> map (\<lambda>d. ncell_local_of 10 3 (of_nat d)) [0, 1, 2] = [4, 3, 3]"
proof -
  have h: "(0::u32) <s 3" by (simp add: word_sless_alt)
  have v: "map (\<lambda>d. ncell_local_of 10 3 (of_nat d)) [0, 1, 2] = [4, 3, 3]"
    by (simp add: ncell_local_of_def Let_def word_sless_alt)
  from ncell_local_partition[OF h, of 10] h v show ?thesis by blast
qed


section \<open>Properties of the connection-building loop\<close>

lemma unat_inc_less: "(a::u32) < b \<Longrightarrow> unat (a + 1) = unat a + 1"
proof -
  assume "a < b"
  then have "unat a < unat b" by (rule unat_mono)
  moreover have "unat b < 2 ^ LENGTH(32)" by (rule unsigned_less)
  ultimately have "unat a + unat (1::u32) < 2 ^ LENGTH(32)" by simp
  then have "unat (a + 1) = unat a + unat (1::u32)" by (simp only: unat_add_lem)
  then show ?thesis by simp
qed

lemma added_ok_Nil: "added_ok gid wgt target 0 []"
  by (simp add: added_ok_def)

lemma added_ok_Cons:
  assumes "added_ok gid wgt (target + 1) n new"
    and "source con \<noteq> gid" "synapse_delay \<le> delay con" "weight con = wgt"
    and "destination con = target"
  shows "added_ok gid wgt target (Suc n) (con # new)"
proof -
  have "map (\<lambda>k. target + of_nat k) [0..<Suc n]
          = target # map (\<lambda>k. target + 1 + of_nat k) [0..<n]"
    by (simp add: upt_conv_Cons map_Suc_upt[symmetric] add.assoc del: upt_Suc)
  then show ?thesis using assms by (simp add: added_ok_def del: upt_Suc)
qed

lemma add_synapses_result:
  assumes run: "add_synapses is_all_to_all source_distribution weight_distribution
                  synapses_per_cell wgt gid gen i cells_added target conns = Some res"
    and w: "\<forall>g. 0 \<le> fst (weight_distribution g)"
    and le: "cells_added \<le> synapses_per_cell"
  shows "\<exists>new. res = conns @ new
           \<and> added_ok gid wgt target (unat synapses_per_cell - unat cells_added) new"
proof -
  let ?P = "\<lambda>(a2a::bool) (sd::'a \<Rightarrow> u32 \<times> 'a) (wd::'a \<Rightarrow> rat \<times> 'a) (spc::u32) (wg::rat)
              (gd::u32) (gn::'a) (ii::u32) (ca::u32) (tg::u32) (cs::connection list) r.
              (\<forall>g. 0 \<le> fst (wd g)) \<longrightarrow> ca \<le> spc \<longrightarrow>
              (\<exists>new. r = cs @ new \<and> added_ok gd wg tg (unat spc - unat ca) new)"
  have "?P is_all_to_all source_distribution weight_distribution
                  synapses_per_cell wgt gid gen i cells_added target conns res"
  proof (rule add_synapses.raw_induct[where P = ?P, OF _ run], intro impI)
    fix f :: "bool \<Rightarrow> ('a \<Rightarrow> u32 \<times> 'a) \<Rightarrow> ('a \<Rightarrow> rat \<times> 'a) \<Rightarrow> u32 \<Rightarrow> rat \<Rightarrow> u32
                \<Rightarrow> 'a \<Rightarrow> u32 \<Rightarrow> u32 \<Rightarrow> u32 \<Rightarrow> connection list \<Rightarrow> connection list option"
    fix a2a sd wd spc wg gd gn ii ca tg cs r
    assume IH: "\<And>a2a sd wd spc wg gd gn ii ca tg cs r.
        f a2a sd wd spc wg gd gn ii ca tg cs = Some r \<Longrightarrow> ?P a2a sd wd spc wg gd gn ii ca tg cs r"
    assume step: "(if ca < spc then
        (let sg = (if a2a then (ii, gn) else sd gn) in
         if gd \<noteq> fst sg then
           (let wv = wd (snd sg) in
            f a2a sd wd spc wg gd (snd wv) (ii + 1) (ca + 1) (tg + 1)
              (cs @ [\<lparr>source = fst sg, destination = tg, weight = wg,
                       delay = fadd synapse_delay (fst wv)\<rparr>]))
         else f a2a sd wd spc wg gd (snd sg) (ii + 1) ca tg cs)
      else Some cs) = Some r"
    assume wpos: "\<forall>g. 0 \<le> fst (wd g)" and cle: "ca \<le> spc"
    show "\<exists>new. r = cs @ new \<and> added_ok gd wg tg (unat spc - unat ca) new"
    proof (cases "ca < spc")
      case False
      then have "ca = spc" using cle by simp
      then show ?thesis using step False by (simp add: added_ok_Nil)
    next
      case True
      let ?sg = "if a2a then (ii, gn) else sd gn"
      show ?thesis
      proof (cases "gd \<noteq> fst ?sg")
        case False
        then have "f a2a sd wd spc wg gd (snd ?sg) (ii + 1) ca tg cs = Some r"
          using step True by (simp add: Let_def)
        from IH[OF this] wpos cle show ?thesis by blast
      next
        case ne: True
        let ?wv = "wd (snd ?sg)"
        let ?con = "\<lparr>source = fst ?sg, destination = tg, weight = wg,
                       delay = fadd synapse_delay (fst ?wv)\<rparr>"
        have "f a2a sd wd spc wg gd (snd ?wv) (ii + 1) (ca + 1) (tg + 1) (cs @ [?con]) = Some r"
          using step True ne by (simp add: Let_def)
        moreover have "ca + 1 \<le> spc" using True by (rule inc_le)
        ultimately obtain new where new: "r = (cs @ [?con]) @ new"
          "added_ok gd wg (tg + 1) (unat spc - unat (ca + 1)) new"
          using IH wpos by blast
        have "unat ca < unat spc" using True by (rule unat_mono)
        then have n: "unat spc - unat ca = Suc (unat spc - unat (ca + 1))"
          using unat_inc_less[OF True] by simp
        have "synapse_delay \<le> fadd synapse_delay (fst ?wv)"
          using wpos by (intro fadd_synapse_delay) simp
        then have "added_ok gd wg tg (unat spc - unat ca) (?con # new)"
          unfolding n using new(2) ne by (intro added_ok_Cons) simp_all
        then show ?thesis using new(1) by simp
      qed
    qed
  qed
  then show ?thesis using w le by blast
qed


lemma add_synapses_all_to_all_after_skip:
  assumes "unat synapses_per_cell - unat cells_added = k"
    and "cells_added < synapses_per_cell \<longrightarrow> unat gid < unat i \<and> unat i = unat cells_added + 1"
  shows "\<exists>res. add_synapses True source_distribution weight_distribution
                  synapses_per_cell wgt gid gen i cells_added target conns = Some res"
  using assms
proof (induction k arbitrary: gen i cells_added target conns)
  case 0
  then have "\<not> cells_added < synapses_per_cell" by (simp add: word_less_nat_alt)
  then show ?case by (subst add_synapses.simps) simp
next
  case (Suc k)
  then have lt: "cells_added < synapses_per_cell" by (simp add: word_less_nat_alt)
  then have inv: "unat gid < unat i" "unat i = unat cells_added + 1" using Suc.prems(2) by simp_all
  then have ne: "gid \<noteq> i" by auto
  have uc: "unat (cells_added + 1) = unat cells_added + 1" using lt by (rule unat_inc_less)
  have rem: "unat synapses_per_cell - unat (cells_added + 1) = k" using Suc.prems(1) uc by simp
  have keep: "cells_added + 1 < synapses_per_cell \<longrightarrow>
                unat gid < unat (i + 1) \<and> unat (i + 1) = unat (cells_added + 1) + 1"
  proof
    assume lt2: "cells_added + 1 < synapses_per_cell"
    have "unat i = unat (cells_added + 1)" using inv(2) uc by simp
    then have "i = cells_added + 1" by (simp only: word_unat_eq_iff)
    then have "i < synapses_per_cell" using lt2 by simp
    then have "unat (i + 1) = unat i + 1" by (rule unat_inc_less)
    then show "unat gid < unat (i + 1) \<and> unat (i + 1) = unat (cells_added + 1) + 1"
      using inv uc by simp
  qed
  from Suc.IH[OF rem keep] show ?case
    using lt ne by (subst add_synapses.simps) (simp add: Let_def)
qed

lemma add_synapses_all_to_all_before_skip:
  assumes "unat synapses_per_cell - unat cells_added = k"
    and "unat i = unat cells_added"
  shows "\<exists>res. add_synapses True source_distribution weight_distribution
                  synapses_per_cell wgt gid gen i cells_added target conns = Some res"
  using assms
proof (induction k arbitrary: gen i cells_added target conns)
  case 0
  then have "\<not> cells_added < synapses_per_cell" by (simp add: word_less_nat_alt)
  then show ?case by (subst add_synapses.simps) simp
next
  case (Suc k)
  then have lt: "cells_added < synapses_per_cell" by (simp add: word_less_nat_alt)
  have ic: "i = cells_added" using Suc.prems(2) by (simp only: word_unat_eq_iff)
  have ui: "unat (i + 1) = unat i + 1" using lt unfolding ic by (rule unat_inc_less)
  show ?case
  proof (cases "gid = i")
    case True
    have "cells_added < synapses_per_cell \<longrightarrow>
            unat gid < unat (i + 1) \<and> unat (i + 1) = unat cells_added + 1"
      using True ui Suc.prems(2) by simp
    from add_synapses_all_to_all_after_skip[OF Suc.prems(1) this] show ?thesis
      using lt True by (subst add_synapses.simps) (simp add: Let_def)
  next
    case False
    have rem: "unat synapses_per_cell - unat (cells_added + 1) = k"
      using Suc.prems(1) ui ic by simp
    have "unat (i + 1) = unat (cells_added + 1)" using ic by simp
    from Suc.IH[OF rem this] show ?thesis
      using lt False by (subst add_synapses.simps) (simp add: Let_def)
  qed
qed

lemma add_synapses_random_accepts:
  assumes later: "\<And>gen' i' target' conns'.
      \<exists>res. add_synapses False source_distribution weight_distribution synapses_per_cell wgt gid
               gen' i' (cells_added + 1) target' conns' = Some res"
    and lt: "cells_added < synapses_per_cell"
    and n: "fst (source_distribution (((\<lambda>g. snd (source_distribution g)) ^^ n) gen)) \<noteq> gid"
  shows "\<exists>res. add_synapses False source_distribution weight_distribution synapses_per_cell wgt gid
               gen i cells_added target conns = Some res"
  using n
proof (induction n arbitrary: gen i)
  case 0
  then have "gid \<noteq> fst (source_distribution gen)" by auto
  then show ?case using lt later by (subst add_synapses.simps) (simp add: Let_def)
next
  case (Suc n)
  show ?case
  proof (cases "gid = fst (source_distribution gen)")
    case False
    then show ?thesis using lt later by (subst add_synapses.simps) (simp add: Let_def)
  next
    case True
    have "((\<lambda>g. snd (source_distribution g)) ^^ Suc n) gen
            = ((\<lambda>g. snd (source_distribution g)) ^^ n) (snd (source_distribution gen))"
      by (simp only: funpow_Suc_right o_apply)
    with Suc.prems have "fst (source_distribution
            (((\<lambda>g. snd (source_distribution g)) ^^ n) (snd (source_distribution gen)))) \<noteq> gid"
      by simp
    from Suc.IH[OF this] show ?thesis
      using lt True by (subst add_synapses.simps) (simp add: Let_def)
  qed
qed

lemma add_synapses_random_terminates:
  assumes draws: "\<forall>g. \<exists>n. fst (source_distribution
                        (((\<lambda>g. snd (source_distribution g)) ^^ n) g)) \<noteq> gid"
    and "unat synapses_per_cell - unat cells_added = k"
  shows "\<exists>res. add_synapses False source_distribution weight_distribution synapses_per_cell wgt gid
               gen i cells_added target conns = Some res"
  using assms(2)
proof (induction k arbitrary: gen i cells_added target conns)
  case 0
  then have "\<not> cells_added < synapses_per_cell" by (simp add: word_less_nat_alt)
  then show ?case by (subst add_synapses.simps) simp
next
  case (Suc k)
  then have lt: "cells_added < synapses_per_cell" by (simp add: word_less_nat_alt)
  have "unat (cells_added + 1) = unat cells_added + 1" using lt by (rule unat_inc_less)
  then have rem: "unat synapses_per_cell - unat (cells_added + 1) = k" using Suc.prems by simp
  from draws obtain n where
    "fst (source_distribution (((\<lambda>g. snd (source_distribution g)) ^^ n) gen)) \<noteq> gid"
    by blast
  then show ?case by (rule add_synapses_random_accepts[OF Suc.IH[OF rem] lt])
qed

text \<open>
  Claim C10, amended.  The samples of the weight distribution are non-negative (it is
  an exponential distribution).  The loop for a cell completes in all-to-all mode, and
  it completes in random mode when, from every state of the generator, the source draws
  sooner or later yield a source different from the cell's own gid.  In either mode,
  when the loop for a cell completes it has added exactly \<open>synapses_per_cell\<close>
  connections, on consecutive targets from the cell's first target id on, each with a
  source different from the cell's own gid and with a delay of at least the base synapse
  delay of 20.
\<close>

theorem cell_connections_added:
  assumes "\<forall>g. 0 \<le> fst (weight_distribution g)"
  shows "(is_all_to_all
          \<or> (\<forall>g. \<exists>n. fst (source_distribution (((\<lambda>g. snd (source_distribution g)) ^^ n) g))
                       \<noteq> group_gid_from_group_lid c lid) \<longrightarrow>
            (\<exists>conns. cell_connections is_all_to_all seed source_distribution weight_distribution
                synapses_per_cell wgt target_gid_from_group_lid c lid = Some conns))
    \<and> (\<forall>conns. cell_connections is_all_to_all seed source_distribution weight_distribution
                synapses_per_cell wgt target_gid_from_group_lid c lid = Some conns \<longrightarrow>
           length conns = unat synapses_per_cell
           \<and> (\<forall>con \<in> set conns. source con \<noteq> group_gid_from_group_lid c lid
                                   \<and> synapse_delay \<le> delay con)
           \<and> map destination conns
               = map (\<lambda>k. target_gid_from_group_lid lid + of_nat k) [0..<unat synapses_per_cell])"
proof (intro conjI impI allI ballI)
  let ?gid = "group_gid_from_group_lid c lid"
  assume mode: "is_all_to_all
          \<or> (\<forall>g. \<exists>n. fst (source_distribution (((\<lambda>g. snd (source_distribution g)) ^^ n) g))
                       \<noteq> ?gid)"
  have "\<exists>res. add_synapses is_all_to_all source_distribution weight_distribution
          synapses_per_cell wgt ?gid (seed ?gid) 0 0 (target_gid_from_group_lid lid) [] = Some res"
  proof (cases is_all_to_all)
    case True
    have "\<exists>res. add_synapses True source_distribution weight_distribution synapses_per_cell wgt
            ?gid (seed ?gid) 0 0 (target_gid_from_group_lid lid) [] = Some res"
      by (rule add_synapses_all_to_all_before_skip[where k = "unat synapses_per_cell"]) simp_all
    then show ?thesis using True by simp
  next
    case False
    then have draws: "\<forall>g. \<exists>n. fst (source_distribution
                        (((\<lambda>g. snd (source_distribution g)) ^^ n) g)) \<noteq> ?gid"
      using mode by blast
    have "\<exists>res. add_synapses False source_distribution weight_distribution synapses_per_cell wgt
            ?gid (seed ?gid) 0 0 (target_gid_from_group_lid lid) [] = Some res"
      by (rule add_synapses_random_terminates[OF draws, where k = "unat synapses_per_cell"]) simp
    then show ?thesis using False by simp
  qed
  then show "\<exists>conns. cell_connections is_all_to_all seed source_distribution weight_distribution
                synapses_per_cell wgt target_gid_from_group_lid c lid = Some conns"
    by (simp add: cell_connections_def Let_def)
next
  fix conns
  assume "cell_connections is_all_to_all seed source_distribution weight_distribution
                synapses_per_cell wgt target_gid_from_group_lid c lid = Some conns"
  then have "add_synapses is_all_to_all source_distribution weight_distribution
       synapses_per_cell wgt (group_gid_from_group_lid c lid) (seed (group_gid_from_group_lid c lid))
       0 0 (target_gid_from_group_lid lid) [] = Some conns"
    by (simp add: cell_connections_def Let_def)
  from add_synapses_result[OF this assms]
  have ok: "added_ok (group_gid_from_group_lid c lid) wgt (target_gid_from_group_lid lid)
              (unat synapses_per_cell) conns"
    by simp
  show "length conns = unat synapses_per_cell" using ok by (simp add: added_ok_def)
  show "map destination conns
          = map (\<lambda>k. target_gid_from_group_lid lid + of_nat k) [0..<unat synapses_per_cell]"
    using ok by (simp add: added_ok_def)
  fix con assume "con \<in> set conns"
  then show "source con \<noteq> group_gid_from_group_lid c lid" "synapse_delay \<le> delay con"
    using ok by (simp_all add: added_ok_def)
qed

lemma add_synapses_rejects_forever:
  assumes run: "add_synapses is_all_to_all source_distribution weight_distribution
                  synapses_per_cell wgt gid gen i cells_added target conns = Some res"
  shows "\<not> (\<not> is_all_to_all \<and> (\<forall>g. fst (source_distribution g) = gid)
              \<and> cells_added < synapses_per_cell)"
proof -
  let ?P = "\<lambda>(a2a::bool) (sd::'a \<Rightarrow> u32 \<times> 'a) (wd::'a \<Rightarrow> rat \<times> 'a) (spc::u32) (wg::rat)
              (gd::u32) (gn::'a) (ii::u32) (ca::u32) (tg::u32) (cs::connection list)
              (r::connection list).
              \<not> (\<not> a2a \<and> (\<forall>g. fst (sd g) = gd) \<and> ca < spc)"
  show ?thesis
  proof (rule add_synapses.raw_induct[where P = ?P, OF _ run])
    fix f :: "bool \<Rightarrow> ('a \<Rightarrow> u32 \<times> 'a) \<Rightarrow> ('a \<Rightarrow> rat \<times> 'a) \<Rightarrow> u32 \<Rightarrow> rat \<Rightarrow> u32
                \<Rightarrow> 'a \<Rightarrow> u32 \<Rightarrow> u32 \<Rightarrow> u32 \<Rightarrow> connection list \<Rightarrow> connection list option"
    fix a2a sd wd spc wg gd gn ii ca tg cs r
    assume IH: "\<And>a2a sd wd spc wg gd gn ii ca tg cs r.
        f a2a sd wd spc wg gd gn ii ca tg cs = Some r \<Longrightarrow> ?P a2a sd wd spc wg gd gn ii ca tg cs r"
    assume step: "(if ca < spc then
        (let sg = (if a2a then (ii, gn) else sd gn) in
         if gd \<noteq> fst sg then
           (let wv = wd (snd sg) in
            f a2a sd wd spc wg gd (snd wv) (ii + 1) (ca + 1) (tg + 1)
              (cs @ [\<lparr>source = fst sg, destination = tg, weight = wg,
                       delay = fadd synapse_delay (fst wv)\<rparr>]))
         else f a2a sd wd spc wg gd (snd sg) (ii + 1) ca tg cs)
      else Some cs) = Some r"
    show "\<not> (\<not> a2a \<and> (\<forall>g. fst (sd g) = gd) \<and> ca < spc)"
    proof
      assume a: "\<not> a2a \<and> (\<forall>g. fst (sd g) = gd) \<and> ca < spc"
      then have "f a2a sd wd spc wg gd (snd (sd gn)) (ii + 1) ca tg cs = Some r"
        using step by (simp add: Let_def)
      from IH[OF this] a show False by blast
    qed
  qed
qed

text \<open>
  Claim C10 as stated says that the loop adds \<open>synapses_per_cell\<close> connections for every
  cell.  In a network of one cell, not in all-to-all mode, the source distribution is
  uniform on \<open>{0}\<close> and the only cell has gid 0: every draw is rejected and the loop
  never completes, with \<open>synapses_per_cell = 1\<close> already.
\<close>

theorem cell_connections_one_cell_diverges:
  "cell_connections False (\<lambda>gid. ()) (\<lambda>g. (0, g)) (\<lambda>g. (0, g)) 1
      (fp_round 24 (fp_round 53 (3 / 10))) (\<lambda>lid. 0) one_cell_domain 0 = None"
proof (cases "cell_connections False (\<lambda>gid. ()) (\<lambda>g. (0, g)) (\<lambda>g. (0, g)) 1
      (fp_round 24 (fp_round 53 (3 / 10))) (\<lambda>lid. 0) one_cell_domain 0")
  case None then show ?thesis .
next
  case (Some res)
  then have "add_synapses False (\<lambda>g::unit. (0::u32, g)) (\<lambda>g. (0, g)) 1
      (fp_round 24 (fp_round 53 (3 / 10))) 0 () 0 0 0 [] = Some res"
    by (simp add: cell_connections_def group_gid_from_group_lid_def one_cell_domain_def)
  from add_synapses_rejects_forever[OF this] have False by simp
  then show ?thesis ..
qed

text \<open>
  A network of two cells, two synapses per cell, the cell with gid 1.  In random mode
  with the draws 1, 0, 0, \<dots> (the generator state counts the draws; an even state
  draws 1) the first draw is rejected and the sources are 0 and 0; in all-to-all mode
  the sources are 0 and 2.
\<close>

theorem cell_connections_added_witness:
  "cell_connections False (\<lambda>gid. 0) (\<lambda>g::nat. (if even g then 1 else 0, Suc g))
       (\<lambda>g. (1 / 2, Suc g)) 2 (3 / 20) (\<lambda>lid. 2 * lid) two_cell_domain 1
     = Some [\<lparr>source = 0, destination = 2, weight = 3 / 20, delay = 41 / 2\<rparr>,
             \<lparr>source = 0, destination = 3, weight = 3 / 20, delay = 41 / 2\<rparr>]
   \<and> cell_connections True (\<lambda>gid. 0) (\<lambda>g::nat. (if even g then 1 else 0, Suc g))
       (\<lambda>g. (1 / 2, Suc g)) 2 (3 / 20) (\<lambda>lid. 2 * lid) two_cell_domain 1
     = Some [\<lparr>source = 0, destination = 2, weight = 3 / 20, delay = 41 / 2\<rparr>,
             \<lparr>source = 2, destination = 3, weight = 3 / 20, delay = 41 / 2\<rparr>]
   \<and> (\<exists>conns. cell_connections False (\<lambda>gid. 0) (\<lambda>g::nat. (if even g then 1 else 0, Suc g))
         (\<lambda>g. (1 / 2, Suc g)) 2 (3 / 20) (\<lambda>lid. 2 * lid) two_cell_domain 1 = Some conns
       \<and> length conns = unat (2 :: u32))"
proof -
  let ?sd = "\<lambda>g::nat. (if even g then 1 else 0 :: u32, Suc g)"
  let ?wd = "\<lambda>g::nat. (1 / 2 :: rat, Suc g)"
  have h: "\<forall>g. 0 \<le> fst (?wd g)" by simp
  have gid: "group_gid_from_group_lid two_cell_domain 1 = 1"
    by (simp add: group_gid_from_group_lid_def two_cell_domain_def)
  have draws: "\<forall>g. \<exists>n. fst (?sd (((\<lambda>g. snd (?sd g)) ^^ n) g))
                       \<noteq> group_gid_from_group_lid two_cell_domain 1"
  proof
    fix g :: nat
    show "\<exists>n. fst (?sd (((\<lambda>g. snd (?sd g)) ^^ n) g)) \<noteq> group_gid_from_group_lid two_cell_domain 1"
    proof (cases "even g")
      case True
      then have "fst (?sd (((\<lambda>g. snd (?sd g)) ^^ 1) g)) \<noteq> group_gid_from_group_lid two_cell_domain 1"
        by (simp add: gid)
      then show ?thesis by blast
    next
      case False
      then have "fst (?sd (((\<lambda>g. snd (?sd g)) ^^ 0) g)) \<noteq> group_gid_from_group_lid two_cell_domain 1"
        by (simp add: gid)
      then show ?thesis by blast
    qed
  qed
  have d: "fadd synapse_delay (1 / 2) = 41 / 2"
    using fp_round_representable[of 41 24 "- 1"] by (simp add: fadd_def synapse_delay_def)
  have v1: "cell_connections False (\<lambda>gid. 0) ?sd ?wd 2 (3 / 20) (\<lambda>lid. 2 * lid) two_cell_domain 1
     = Some [\<lparr>source = 0, destination = 2, weight = 3 / 20, delay = 41 / 2\<rparr>,
             \<lparr>source = 0, destination = 3, weight = 3 / 20, delay = 41 / 2\<rparr>]"
    by (simp add: cell_connections_def gid add_synapses.simps d)
  have v2: "cell_connections True (\<lambda>gid. 0) ?sd ?wd 2 (3 / 20) (\<lambda>lid. 2 * lid) two_cell_domain 1
     = Some [\<lparr>source = 0, destination = 2, weight = 3 / 20, delay = 41 / 2\<rparr>,
             \<lparr>source = 2, destination = 3, weight = 3 / 20, delay = 41 / 2\<rparr>]"
    by (simp add: cell_connections_def gid add_synapses.simps d)
  note T = cell_connections_added[OF h, of False ?sd two_cell_domain 1 "\<lambda>gid. 0" 2 "3 / 20"
         "\<lambda>lid. 2 * lid"]
  from T draws obtain conns where
    c: "cell_connections False (\<lambda>gid. 0) ?sd ?wd 2 (3 / 20) (\<lambda>lid. 2 * lid) two_cell_domain 1
          = Some conns" by blast
  with T have "length conns = unat (2 :: u32)" by blast
  with c v1 v2 show ?thesis by blast
qed

end
